theory Spec2Isabelle
  imports Main
begin

section \<open>Python strings\<close>

text \<open>
  A Python \<^verbatim>\<open>str\<close> is a sequence of Unicode code points, so it is modelled as a list of
  natural numbers; \<open>ustr\<close> reads an ASCII literal as such a string. The newline is code
  point 10, \<^verbatim>\<open>{\<close> is 123, \<^verbatim>\<open>}\<close> is 125 and the backtick is 96.
\<close>

type_synonym pystr = "nat list"

definition ustr :: "string \<Rightarrow> pystr" where
  "ustr s = map of_char s"

text \<open>\<^verbatim>\<open>str.isspace\<close> on one code point: the code points that \<^verbatim>\<open>str.strip()\<close> removes.\<close>

definition isspace :: "nat \<Rightarrow> bool" where
  "isspace c \<longleftrightarrow>
     (9 \<le> c \<and> c \<le> 13) \<or> (28 \<le> c \<and> c \<le> 32) \<or> c = 133 \<or> c = 160 \<or> c = 5760 \<or>
     (8192 \<le> c \<and> c \<le> 8202) \<or> c = 8232 \<or> c = 8233 \<or> c = 8239 \<or> c = 8287 \<or> c = 12288"

definition lstrip :: "pystr \<Rightarrow> pystr" where
  "lstrip s = dropWhile isspace s"

definition rstrip :: "pystr \<Rightarrow> pystr" where
  "rstrip s = rev (dropWhile isspace (rev s))"

text \<open>\<^verbatim>\<open>s.strip()\<close>\<close>

definition strip :: "pystr \<Rightarrow> pystr" where
  "strip s = rstrip (lstrip s)"

text \<open>\<^verbatim>\<open>s.split("\n")\<close>: one piece more than there are newlines, never an empty list.\<close>

fun split_lines :: "pystr \<Rightarrow> pystr list" where
  "split_lines [] = [[]]"
| "split_lines (c # cs) =
     (if c = 10 then [] # split_lines cs
      else (case split_lines cs of
              [] \<Rightarrow> [[c]]
            | l # ls \<Rightarrow> (c # l) # ls))"

text \<open>\<^verbatim>\<open>"\n".join(xs)\<close>\<close>

fun join_lines :: "pystr list \<Rightarrow> pystr" where
  "join_lines [] = []"
| "join_lines [x] = x"
| "join_lines (x # y # zs) = x @ [10] @ join_lines (y # zs)"

text \<open>\<^verbatim>\<open>s.startswith(p)\<close>\<close>

definition startswith :: "pystr \<Rightarrow> pystr \<Rightarrow> bool" where
  "startswith s p \<longleftrightarrow> take (length p) s = p"

text \<open>\<^verbatim>\<open>str(i)\<close> for a Python int, as an f-string renders it.\<close>

fun str_nat :: "nat \<Rightarrow> pystr" where
  "str_nat n = (if n < 10 then [48 + n] else str_nat (n div 10) @ [48 + n mod 10])"

declare str_nat.simps [simp del]

definition str_int :: "int \<Rightarrow> pystr" where
  "str_int i = (if i < 0 then 45 # str_nat (nat (- i)) else str_nat (nat i))"

section \<open>LineIndexer: \<^verbatim>\<open>number_lines\<close>\<close>

text \<open>
  \<^verbatim>\<open>
  def number_lines(text: str) -> tuple[str, dict]:
      lines = text.split("\n")
      numbered_lines = []
      line_map = {}
      for i, line in enumerate(lines, start=1):
          numbered_lines.append(f"[LINE_{i}] {line}")
          line_map[i] = line.strip()
      return "\n".join(numbered_lines), line_map
  \<close>
  The dictionary is a map from Python ints to strings. The loop passes its two
  accumulators along; \<open>i\<close> is the counter of \<^verbatim>\<open>enumerate\<close>.
\<close>

type_synonym line_map = "int \<rightharpoonup> pystr"

definition numbered_line :: "int \<Rightarrow> pystr \<Rightarrow> pystr" where
  "numbered_line i line = ustr ''[LINE_'' @ str_int i @ ustr ''] '' @ line"

fun number_lines_loop ::
  "int \<Rightarrow> pystr list \<Rightarrow> pystr list \<Rightarrow> line_map \<Rightarrow> pystr list \<times> line_map" where
  "number_lines_loop i [] numbered_lines line_map = (numbered_lines, line_map)"
| "number_lines_loop i (line # rest) numbered_lines line_map =
     number_lines_loop (i + 1) rest
       (numbered_lines @ [numbered_line i line]) (line_map(i \<mapsto> strip line))"

definition number_lines :: "pystr \<Rightarrow> pystr \<times> line_map" where
  "number_lines text =
     (let lines = split_lines text;
          (numbered_lines, line_map) = number_lines_loop 1 lines [] Map.empty
      in (join_lines numbered_lines, line_map))"

section \<open>EvidenceResolver: \<^verbatim>\<open>extract_evidence_from_line_ids\<close>\<close>

text \<open>
  \<^verbatim>\<open>
  def extract_evidence_from_line_ids(line_ids: list, line_map: dict, topic: str) -> list:
      evidence = []
      for line_id in line_ids:
          if line_id in line_map and line_map[line_id]:
              evidence.append({
                  "quote": line_map[line_id],
                  "location": f"Line {line_id}",
                  "topic": topic
              })
      return evidence
  \<close>
  An evidence dictionary has the three fixed keys of the literal, so it is a record. A
  line identifier is a Python int. The lookup \<^verbatim>\<open>line_map[line_id]\<close> is only reached behind
  \<^verbatim>\<open>line_id in line_map\<close>, so no \<^verbatim>\<open>KeyError\<close> branch exists; a string is truthy iff it
  is not empty. The parameter \<^verbatim>\<open>topic\<close> is written \<open>label\<close> and the list
  \<^verbatim>\<open>evidence\<close> is written \<open>acc\<close>, since the record owns those names.
\<close>

record evidence =
  quote :: pystr
  location :: pystr
  topic :: pystr

fun extract_loop :: "int list \<Rightarrow> line_map \<Rightarrow> pystr \<Rightarrow> evidence list \<Rightarrow> evidence list" where
  "extract_loop [] line_map label acc = acc"
| "extract_loop (line_id # rest) line_map label acc =
     (case line_map line_id of
        None \<Rightarrow> extract_loop rest line_map label acc
      | Some text \<Rightarrow>
          if text \<noteq> [] then
            extract_loop rest line_map label
              (acc @ [\<lparr>quote = text,
                       location = ustr ''Line '' @ str_int line_id,
                       topic = label\<rparr>])
          else extract_loop rest line_map label acc)"

definition extract_evidence_from_line_ids ::
  "int list \<Rightarrow> line_map \<Rightarrow> pystr \<Rightarrow> evidence list" where
  "extract_evidence_from_line_ids line_ids line_map label =
     extract_loop line_ids line_map label []"

text \<open>The number a string of decimal digits denotes (\<^verbatim>\<open>int(s)\<close> on digits).\<close>

definition digits_value :: "pystr \<Rightarrow> nat" where
  "digits_value ds = foldl (\<lambda>a d. 10 * a + (d - 48)) 0 ds"

section \<open>The JSON decoder: \<^verbatim>\<open>json.loads\<close>\<close>

text \<open>
  \<^verbatim>\<open>must_json\<close> hands its text to \<^verbatim>\<open>json.loads\<close> of the Python standard library. The
  decoder is modelled after CPython's scanner (\<^verbatim>\<open>Modules/_json.c\<close> and
  \<^verbatim>\<open>Lib/json/decoder.py\<close>, default settings, strict mode): a recursive descent over the
  rest of the text, every function returning the value read and the text behind it, or
  the error. The values are those \<^verbatim>\<open>json.loads\<close> builds: \<^verbatim>\<open>None\<close>, \<^verbatim>\<open>bool\<close>,
  \<^verbatim>\<open>int\<close>, \<^verbatim>\<open>float\<close>, \<^verbatim>\<open>str\<close>, \<^verbatim>\<open>list\<close> and \<^verbatim>\<open>dict\<close>. A float is kept as the
  literal it is read from (\<open>JFloat l\<close> stands for \<^verbatim>\<open>float(l)\<close>); a dict is the list of its
  items in insertion order, with distinct keys. The only failure is \<^verbatim>\<open>JSONDecodeError\<close>;
  its message and position are not modelled, nor are the interpreter's resource limits
  (recursion depth, digits of an integer literal).
\<close>

datatype json =
    JNull
  | JBool bool
  | JInt int
  | JFloat pystr
  | JString pystr
  | JArray "json list"
  | JObject "(pystr \<times> json) list"

datatype error = JSONDecodeError

text \<open>The whitespace of the decoder: space, tab, line feed, carriage return.\<close>

definition json_ws :: "nat \<Rightarrow> bool" where
  "json_ws c \<longleftrightarrow> c = 32 \<or> c = 9 \<or> c = 10 \<or> c = 13"

definition skip_ws :: "pystr \<Rightarrow> pystr" where
  "skip_ws s = dropWhile json_ws s"

definition is_digit :: "nat \<Rightarrow> bool" where
  "is_digit c \<longleftrightarrow> 48 \<le> c \<and> c \<le> 57"

definition hex_value :: "nat \<Rightarrow> nat option" where
  "hex_value c =
     (if 48 \<le> c \<and> c \<le> 57 then Some (c - 48)
      else if 65 \<le> c \<and> c \<le> 70 then Some (c - 55)
      else if 97 \<le> c \<and> c \<le> 102 then Some (c - 87)
      else None)"

text \<open>The four hexadecimal digits of a \<^verbatim>\<open>\uXXXX\<close> escape, and the text behind them.\<close>

fun hex4 :: "pystr \<Rightarrow> (nat \<times> pystr) option" where
  "hex4 (a # b # c # d # rest) =
     (case (hex_value a, hex_value b, hex_value c, hex_value d) of
        (Some x, Some y, Some z, Some w) \<Rightarrow> Some (((x * 16 + y) * 16 + z) * 16 + w, rest)
      | _ \<Rightarrow> None)"
| "hex4 _ = None"

text \<open>The one-character escapes: \<^verbatim>\<open>" \ / b f n r t\<close>.\<close>

definition escape_char :: "nat \<Rightarrow> nat option" where
  "escape_char e =
     (if e = 34 then Some 34 else if e = 92 then Some 92 else if e = 47 then Some 47
      else if e = 98 then Some 8 else if e = 102 then Some 12 else if e = 110 then Some 10
      else if e = 114 then Some 13 else if e = 116 then Some 9 else None)"

text \<open>
  \<^verbatim>\<open>scanstring\<close>, entered behind the opening quote; \<open>acc\<close> holds the characters decoded
  so far. A control character, an unknown escape, a malformed \<^verbatim>\<open>\u\<close> escape and a
  missing closing quote are errors; a high surrogate followed by an escaped low surrogate
  is joined with it.
\<close>

function scanstring :: "pystr \<Rightarrow> pystr \<Rightarrow> error + (pystr \<times> pystr)" where
  "scanstring [] acc = Inl JSONDecodeError"
| "scanstring (c # cs) acc =
     (if c = 34 then Inr (acc, cs)
      else if c = 92 then
        (case cs of
           [] \<Rightarrow> Inl JSONDecodeError
         | e # es \<Rightarrow>
             if e = 117 then
               (case hex4 es of
                  None \<Rightarrow> Inl JSONDecodeError
                | Some (uni, r) \<Rightarrow>
                    if 55296 \<le> uni \<and> uni \<le> 56319 \<and> startswith r [92, 117] then
                      (case hex4 (drop 2 r) of
                         None \<Rightarrow> Inl JSONDecodeError
                       | Some (uni2, r2) \<Rightarrow>
                           if 56320 \<le> uni2 \<and> uni2 \<le> 57343 then
                             scanstring r2
                               (acc @ [65536 + ((uni - 55296) * 1024 + (uni2 - 56320))])
                           else scanstring r (acc @ [uni]))
                    else scanstring r (acc @ [uni]))
             else
               (case escape_char e of
                  None \<Rightarrow> Inl JSONDecodeError
                | Some ch \<Rightarrow> scanstring es (acc @ [ch])))
      else if c < 32 then Inl JSONDecodeError
      else scanstring cs (acc @ [c]))"
  by pat_completeness auto

text \<open>
  \<^verbatim>\<open>_match_number\<close>: an optional minus, the integer part (\<^verbatim>\<open>0\<close> or a non-zero digit and
  more digits), an optional fraction (a point and at least one digit) and an optional
  exponent (\<^verbatim>\<open>e\<close> or \<^verbatim>\<open>E\<close>, an optional sign, at least one digit). With neither fraction
  nor exponent the value is an \<^verbatim>\<open>int\<close>, else a \<^verbatim>\<open>float\<close>.
\<close>

definition match_sign :: "pystr \<Rightarrow> pystr \<times> pystr" where
  "match_sign s = (if startswith s [45] then ([45], tl s) else ([], s))"

definition match_int :: "pystr \<Rightarrow> (pystr \<times> pystr) option" where
  "match_int s =
     (case s of
        [] \<Rightarrow> None
      | d # r \<Rightarrow>
          if is_digit d then
            Some (if d = 48 then ([d], r)
                  else (d # takeWhile is_digit r, dropWhile is_digit r))
          else None)"

definition match_frac :: "pystr \<Rightarrow> pystr \<times> pystr" where
  "match_frac s =
     (case s of
        p # f # r \<Rightarrow>
          if p = 46 \<and> is_digit f
          then (p # takeWhile is_digit (f # r), dropWhile is_digit (f # r))
          else ([], s)
      | _ \<Rightarrow> ([], s))"

definition match_exp :: "pystr \<Rightarrow> pystr \<times> pystr" where
  "match_exp s =
     (case s of
        [] \<Rightarrow> ([], s)
      | e # r \<Rightarrow>
          if e = 101 \<or> e = 69 then
            (let (sg, r') =
                   (case r of
                      [] \<Rightarrow> ([], r)
                    | g # r'' \<Rightarrow> if g = 43 \<or> g = 45 then ([g], r'') else ([], r))
             in if takeWhile is_digit r' = [] then ([], s)
                else (e # sg @ takeWhile is_digit r', dropWhile is_digit r'))
          else ([], s))"

definition match_number :: "pystr \<Rightarrow> (json \<times> pystr) option" where
  "match_number s =
     (let (sign, s1) = match_sign s in
      case match_int s1 of
        None \<Rightarrow> None
      | Some (ipart, s2) \<Rightarrow>
          (let (frac, s3) = match_frac s2;
               (ex, s4) = match_exp s3
           in if frac = [] \<and> ex = []
              then Some (JInt (if sign = [] then int (digits_value ipart)
                               else - int (digits_value ipart)), s4)
              else Some (JFloat (sign @ ipart @ frac @ ex), s4)))"

text \<open>
  The values of \<^verbatim>\<open>scan_once\<close> that are neither object nor array: a string, the literals
  \<^verbatim>\<open>null\<close>, \<^verbatim>\<open>true\<close>, \<^verbatim>\<open>false\<close>, the constants \<^verbatim>\<open>NaN\<close>, \<^verbatim>\<open>Infinity\<close>, \<^verbatim>\<open>-Infinity\<close>,
  and a number. Anything else is \<^verbatim>\<open>StopIteration\<close>, which \<^verbatim>\<open>raw_decode\<close> turns into the
  decode error.
\<close>

definition scan_scalar :: "pystr \<Rightarrow> error + (json \<times> pystr)" where
  "scan_scalar s =
     (if startswith s [34] then
        (case scanstring (tl s) [] of
           Inl e \<Rightarrow> Inl e
         | Inr (str, r) \<Rightarrow> Inr (JString str, r))
      else if startswith s (ustr ''null'') then Inr (JNull, drop 4 s)
      else if startswith s (ustr ''true'') then Inr (JBool True, drop 4 s)
      else if startswith s (ustr ''false'') then Inr (JBool False, drop 5 s)
      else if startswith s (ustr ''NaN'') then Inr (JFloat (ustr ''NaN''), drop 3 s)
      else if startswith s (ustr ''Infinity'') then Inr (JFloat (ustr ''Infinity''), drop 8 s)
      else if startswith s (ustr ''-Infinity'')
        then Inr (JFloat (ustr ''-Infinity''), drop 9 s)
      else (case match_number s of
              None \<Rightarrow> Inl JSONDecodeError
            | Some (v, r) \<Rightarrow> Inr (v, r)))"

text \<open>
  \<^verbatim>\<open>PyDict_SetItem\<close> on the items read so far: a key seen before keeps its place and takes
  the new value, a new key goes to the end.
\<close>

fun dict_set :: "(pystr \<times> json) list \<Rightarrow> pystr \<Rightarrow> json \<Rightarrow> (pystr \<times> json) list" where
  "dict_set [] k v = [(k, v)]"
| "dict_set ((k', v') # rest) k v =
     (if k' = k then (k, v) # rest else (k', v') # dict_set rest k v)"

text \<open>
  \<^verbatim>\<open>scan_once\<close>, \<^verbatim>\<open>_parse_array\<close> and \<^verbatim>\<open>_parse_object\<close>. \<open>parse_array\<close> stands at the
  start of an element with the elements read so far, \<open>parse_object\<close> at the start of a key
  with the items read so far; an empty array or object is closed in \<open>parse_value\<close>, as
  the scanner tests for it before entering its loop.
\<close>

function parse_value :: "pystr \<Rightarrow> error + (json \<times> pystr)"
  and parse_array :: "json list \<Rightarrow> pystr \<Rightarrow> error + (json \<times> pystr)"
  and parse_object :: "(pystr \<times> json) list \<Rightarrow> pystr \<Rightarrow> error + (json \<times> pystr)"
where
  "parse_value s =
     (case s of
        [] \<Rightarrow> Inl JSONDecodeError
      | c # cs \<Rightarrow>
          if c = 123 then
            (if startswith (skip_ws cs) [125] then Inr (JObject [], tl (skip_ws cs))
             else parse_object [] (skip_ws cs))
          else if c = 91 then
            (if startswith (skip_ws cs) [93] then Inr (JArray [], tl (skip_ws cs))
             else parse_array [] (skip_ws cs))
          else scan_scalar s)"
| "parse_array items s =
     (case parse_value s of
        Inl e \<Rightarrow> Inl e
      | Inr (v, r) \<Rightarrow>
          (case skip_ws r of
             [] \<Rightarrow> Inl JSONDecodeError
           | c # r' \<Rightarrow>
               if c = 93 then Inr (JArray (items @ [v]), r')
               else if c = 44 then parse_array (items @ [v]) (skip_ws r')
               else Inl JSONDecodeError))"
| "parse_object pairs s =
     (case s of
        [] \<Rightarrow> Inl JSONDecodeError
      | q # cs \<Rightarrow>
          if q = 34 then
            (case scanstring cs [] of
               Inl e \<Rightarrow> Inl e
             | Inr (key, r1) \<Rightarrow>
                 (case skip_ws r1 of
                    [] \<Rightarrow> Inl JSONDecodeError
                  | d # r2 \<Rightarrow>
                      if d = 58 then
                        (case parse_value (skip_ws r2) of
                           Inl e \<Rightarrow> Inl e
                         | Inr (v, r3) \<Rightarrow>
                             (case skip_ws r3 of
                                [] \<Rightarrow> Inl JSONDecodeError
                              | c # r4 \<Rightarrow>
                                  if c = 125 then Inr (JObject (dict_set pairs key v), r4)
                                  else if c = 44
                                    then parse_object (dict_set pairs key v) (skip_ws r4)
                                  else Inl JSONDecodeError))
                      else Inl JSONDecodeError))
          else Inl JSONDecodeError)"
  by pat_completeness auto

text \<open>
  \<^verbatim>\<open>json.loads(s)\<close>: whitespace, one value, whitespace, and nothing more
  (\<^verbatim>\<open>JSONDecoder.decode\<close>; anything behind the value is the error \<^verbatim>\<open>Extra data\<close>).
\<close>

definition json_loads :: "pystr \<Rightarrow> error + json" where
  "json_loads s =
     (case parse_value (skip_ws s) of
        Inl e \<Rightarrow> Inl e
      | Inr (v, r) \<Rightarrow> if skip_ws r = [] then Inr v else Inl JSONDecodeError)"

section \<open>JSONExtractor: \<^verbatim>\<open>must_json\<close>\<close>

text \<open>
  \<^verbatim>\<open>
  def must_json(text: str) -> dict:
      text = text.strip()
      if text.startswith("```"):
          lines = text.split("\n")
          text = "\n".join(lines[1:-1] if lines[-1].strip() == "```" else lines[1:])
          text = text.strip()
          if text.startswith("json"):
              text = text[4:].strip()
      if "{" in text:
          start = text.find("{")
          count = 0
          end = start
          for i in range(start, len(text)):
              if text[i] == "{":
                  count += 1
              elif text[i] == "}":
                  count -= 1
                  if count == 0:
                      end = i + 1
                      break
          if end > start:
              text = text[start:end]
      try:
          return json.loads(text)
      except json.JSONDecodeError as e:
          print(f"\n(cross mark) Failed to parse JSON. Raw response:\n{text}\n")
          raise
  \<close>
  The three stages are three definitions: the fence (\<open>strip_code_fence\<close>, applied to the
  trimmed text), the span of the first object (\<open>select_object_span\<close>) and the parse with
  its report. \<open>lines[1:-1]\<close> is the list without its first and its last element,
  \<open>lines[-1]\<close> the last element of a list that is never empty.
\<close>

definition strip_code_fence :: "pystr \<Rightarrow> pystr" where
  "strip_code_fence text =
     (if startswith text [96, 96, 96] then
        (let lines = split_lines text;
             text1 = strip (join_lines (if strip (last lines) = [96, 96, 96]
                                        then butlast (drop 1 lines) else drop 1 lines))
         in if startswith text1 (ustr ''json'') then strip (drop 4 text1) else text1)
      else text)"

text \<open>
  The \<^verbatim>\<open>for\<close> loop over \<^verbatim>\<open>range(start, len(text))\<close>: the first argument is the text from
  index \<open>i\<close> on; the result is the value of \<^verbatim>\<open>end\<close> when the loop is left, by
  \<^verbatim>\<open>break\<close> or at the end of the text.
\<close>

fun brace_loop :: "pystr \<Rightarrow> nat \<Rightarrow> int \<Rightarrow> nat \<Rightarrow> nat" where
  "brace_loop [] i count end = end"
| "brace_loop (c # cs) i count end =
     (if c = 123 then brace_loop cs (i + 1) (count + 1) end
      else if c = 125 then
        (if count - 1 = 0 then i + 1
         else brace_loop cs (i + 1) (count - 1) end)
      else brace_loop cs (i + 1) count end)"

text \<open>\<^verbatim>\<open>text.find("{")\<close> on a text that contains the character.\<close>

definition find_brace :: "pystr \<Rightarrow> nat" where
  "find_brace text = length (takeWhile (\<lambda>c. c \<noteq> 123) text)"

definition select_object_span :: "pystr \<Rightarrow> pystr" where
  "select_object_span text =
     (if 123 \<in> set text then
        (let start = find_brace text;
             end = brace_loop (drop start text) start 0 start
         in if end > start then drop start (take end text) else text)
      else text)"

text \<open>
  The line \<^verbatim>\<open>print\<close> writes on a parse failure: a newline, the cross mark U+274C, the
  message, the text that was handed to the parser, a newline.
\<close>

definition failure_report :: "pystr \<Rightarrow> pystr" where
  "failure_report text =
     [10, 10060, 32] @ ustr ''Failed to parse JSON. Raw response:'' @ [10] @ text @ [10]"

text \<open>
  \<open>must_json\<close> returns what it printed and its outcome: the parsed value, or the
  \<^verbatim>\<open>JSONDecodeError\<close> it re-raises.
\<close>

definition must_json :: "pystr \<Rightarrow> pystr list \<times> (error + json)" where
  "must_json raw =
     (let text = select_object_span (strip_code_fence (strip raw)) in
      case json_loads text of
        Inr obj \<Rightarrow> ([], Inr obj)
      | Inl e \<Rightarrow> ([failure_report text], Inl e))"

section \<open>Pipeline: the evidence step of \<^verbatim>\<open>main\<close>\<close>

text \<open>
  \<^verbatim>\<open>
  numbered_text, line_map = number_lines(study_text)
  ...
  extract_raw = call_llm(extract_prompt, extract_user_payload)
  line_ids_result = must_json(extract_raw)
  ...
  evidence_quotes = []
  evidence_quotes.extend(
      extract_evidence_from_line_ids(
          line_ids_result.get("index_test_blinding_line_ids", []),
          line_map, "index_test_blinding"))
  evidence_quotes.extend(
      extract_evidence_from_line_ids(
          line_ids_result.get("threshold_line_ids", []),
          line_map, "threshold"))
  extracted = {
      "study_id": STUDY_ID,
      "evidence_quotes": evidence_quotes,
      "not_found": line_ids_result.get("not_found", [])
  }
  \<close>
  The reply of the model (\<^verbatim>\<open>extract_raw\<close>) is a parameter: \<^verbatim>\<open>call_llm\<close> is the external
  model backend. \<^verbatim>\<open>d.get(key, default)\<close> is \<open>dict_get\<close>. The two groups are read through
  a typed view, \<open>as_line_ids\<close>: a JSON array of integers is a list of line identifiers.
  For a reply that is not an object, or a group of another shape, Python's dynamic typing
  decides what happens (a string iterates by character, a float or a bool is compared
  with the integer keys, a list is unhashable); those replies are outside this model and
  \<open>verified_evidence\<close> is \<open>None\<close> on them.
\<close>

definition STUDY_ID :: pystr where
  "STUDY_ID = ustr ''smith_2022''"

record extracted =
  study_id :: pystr
  evidence_quotes :: "evidence list"
  not_found :: json

definition dict_get :: "(pystr \<times> json) list \<Rightarrow> pystr \<Rightarrow> json \<Rightarrow> json" where
  "dict_get d key dflt = (case map_of d key of None \<Rightarrow> dflt | Some v \<Rightarrow> v)"

fun ints_of :: "json list \<Rightarrow> int list option" where
  "ints_of [] = Some []"
| "ints_of (JInt n # xs) = (case ints_of xs of None \<Rightarrow> None | Some ns \<Rightarrow> Some (n # ns))"
| "ints_of (_ # xs) = None"

fun as_line_ids :: "json \<Rightarrow> int list option" where
  "as_line_ids (JArray xs) = ints_of xs"
| "as_line_ids _ = None"

definition verified_evidence :: "json \<Rightarrow> line_map \<Rightarrow> extracted option" where
  "verified_evidence line_ids_result line_map =
     (case line_ids_result of
        JObject d \<Rightarrow>
          (case as_line_ids (dict_get d (ustr ''index_test_blinding_line_ids'') (JArray [])) of
             None \<Rightarrow> None
           | Some blinding_ids \<Rightarrow>
               (case as_line_ids (dict_get d (ustr ''threshold_line_ids'') (JArray [])) of
                  None \<Rightarrow> None
                | Some threshold_ids \<Rightarrow>
                    Some \<lparr>study_id = STUDY_ID,
                          evidence_quotes =
                            [] @ extract_evidence_from_line_ids blinding_ids line_map
                                   (ustr ''index_test_blinding'')
                               @ extract_evidence_from_line_ids threshold_ids line_map
                                   (ustr ''threshold''),
                          not_found = dict_get d (ustr ''not_found'') (JArray [])\<rparr>))
      | _ \<Rightarrow> None)"

text \<open>
  The step from the document and the reply to the verified evidence: a reply that does
  not parse aborts the run with the error of \<open>must_json\<close>.
\<close>

definition main_evidence :: "pystr \<Rightarrow> pystr \<Rightarrow> error + extracted option" where
  "main_evidence study_text extract_raw =
     (let (numbered_text, line_map) = number_lines study_text in
      case snd (must_json extract_raw) of
        Inl e \<Rightarrow> Inl e
      | Inr line_ids_result \<Rightarrow> Inr (verified_evidence line_ids_result line_map))"


section \<open>Facts about lines\<close>

lemma split_lines_ne [simp]: "split_lines s \<noteq> []"
  by (induction s) (auto split: list.splits)

lemma split_lines_no_nl: "l \<in> set (split_lines s) \<Longrightarrow> 10 \<notin> set l"
  by (induction s arbitrary: l) (auto split: list.splits if_splits)


lemma split_lines_Cons_nonl:
  "c \<noteq> 10 \<Longrightarrow> split_lines (c # cs) = (c # hd (split_lines cs)) # tl (split_lines cs)"
  by (auto split: list.splits)

lemma split_lines_append_nonl:
  "10 \<notin> set x \<Longrightarrow> split_lines (x @ s) = (x @ hd (split_lines s)) # tl (split_lines s)"
  by (induction x) (auto split: list.splits)

lemma split_lines_nonl: "10 \<notin> set x \<Longrightarrow> split_lines x = [x]"
  using split_lines_append_nonl [of x "[]"] by simp


lemma split_join_lines:
  "xs \<noteq> [] \<Longrightarrow> \<forall>x\<in>set xs. 10 \<notin> set x \<Longrightarrow> split_lines (join_lines xs) = xs"
proof (induction xs rule: join_lines.induct)
  case 1
  then show ?case by simp
next
  case (2 x)
  then show ?case by (simp add: split_lines_nonl)
next
  case (3 x y zs)
  then show ?case by (simp add: split_lines_append_nonl)
qed

lemma str_nat_digits: "c \<in> set (str_nat n) \<Longrightarrow> 48 \<le> c \<and> c \<le> 57"
proof (induction n arbitrary: c rule: str_nat.induct)
  case (1 n)
  show ?case
  proof (cases "n < 10")
    case True
    with "1.prems" show ?thesis by (simp add: str_nat.simps [of n])
  next
    case False
    with "1.prems" have "c \<in> set (str_nat (n div 10)) \<or> c = 48 + n mod 10"
      by (auto simp: str_nat.simps [of n])
    then show ?thesis
    proof
      assume "c \<in> set (str_nat (n div 10))"
      with "1.IH" False show ?thesis by blast
    next
      assume "c = 48 + n mod 10"
      then show ?thesis by simp
    qed
  qed
qed

lemma str_int_no_nl: "10 \<notin> set (str_int i)"
  using str_nat_digits [of 10] by (auto simp: str_int_def)

lemma numbered_line_no_nl: "10 \<notin> set line \<Longrightarrow> 10 \<notin> set (numbered_line i line)"
  by (simp add: numbered_line_def ustr_def str_int_no_nl)

lemma number_lines_loop_fst:
  "fst (number_lines_loop i ls nl lm) =
     nl @ map (\<lambda>k. numbered_line (i + int k) (ls ! k)) [0..<length ls]"
proof (induction ls arbitrary: i nl lm)
  case Nil
  then show ?case by simp
next
  case (Cons l ls)
  have "map (\<lambda>k. numbered_line (i + int k) ((l # ls) ! k)) [0..<length (l # ls)] =
        numbered_line i l # map (\<lambda>k. numbered_line (i + 1 + int k) (ls ! k)) [0..<length ls]"
    by (simp add: map_upt_Suc ac_simps del: upt_Suc)
  with Cons show ?case by simp
qed

lemma number_lines_loop_snd:
  "snd (number_lines_loop i ls nl lm) j =
     (if i \<le> j \<and> j < i + int (length ls) then Some (strip (ls ! nat (j - i))) else lm j)"
proof (induction ls arbitrary: i nl lm)
  case Nil
  then show ?case by auto
next
  case (Cons l ls)
  show ?case
  proof (cases "i = j")
    case True
    then show ?thesis by (simp add: Cons)
  next
    case False
    then have "i + 1 \<le> j \<Longrightarrow> nat (j - i) = Suc (nat (j - (i + 1)))" by arith
    with False show ?thesis by (auto simp: Cons)
  qed
qed

lemma number_lines_map:
  "snd (number_lines text) j =
     (if 1 \<le> j \<and> j \<le> int (length (split_lines text))
      then Some (strip (split_lines text ! nat (j - 1))) else None)"
proof -
  have "snd (number_lines text) = snd (number_lines_loop 1 (split_lines text) [] Map.empty)"
    by (simp add: number_lines_def Let_def split: prod.splits)
  then show ?thesis
    by (simp add: number_lines_loop_snd)
qed

lemma number_lines_text:
  "fst (number_lines text) =
     join_lines (map (\<lambda>k. numbered_line (int k + 1) (split_lines text ! k))
                   [0..<length (split_lines text)])"
proof -
  have "fst (number_lines text) =
        join_lines (fst (number_lines_loop 1 (split_lines text) [] Map.empty))"
    by (simp add: number_lines_def Let_def split: prod.splits)
  then show ?thesis
    by (simp add: number_lines_loop_fst add.commute)
qed

lemma extract_loop_filter:
  "extract_loop line_ids line_map label acc =
     acc @ map (\<lambda>i. \<lparr>quote = the (line_map i), location = ustr ''Line '' @ str_int i,
                       topic = label\<rparr>)
             (filter (\<lambda>i. case line_map i of None \<Rightarrow> False | Some t \<Rightarrow> t \<noteq> []) line_ids)"
  by (induction line_ids arbitrary: acc) (auto split: option.splits)

lemma hd_lstrip: "lstrip s \<noteq> [] \<Longrightarrow> \<not> isspace (hd (lstrip s))"
  unfolding lstrip_def by (rule hd_dropWhile)

lemma last_rstrip: "rstrip s \<noteq> [] \<Longrightarrow> \<not> isspace (last (rstrip s))"
proof -
  assume ne: "rstrip s \<noteq> []"
  then have "dropWhile isspace (rev s) \<noteq> []" by (simp add: rstrip_def)
  then have "\<not> isspace (hd (dropWhile isspace (rev s)))" by (rule hd_dropWhile)
  with ne show ?thesis by (simp add: rstrip_def last_rev)
qed

lemma rstrip_prefix: "\<exists>w. s = rstrip s @ w"
proof -
  have "s = rev (takeWhile isspace (rev s) @ dropWhile isspace (rev s))"
    by (simp only: takeWhile_dropWhile_id rev_rev_ident)
  also have "\<dots> = rstrip s @ rev (takeWhile isspace (rev s))"
    by (simp only: rev_append rstrip_def)
  finally show ?thesis ..
qed

lemma hd_rstrip: "rstrip s \<noteq> [] \<Longrightarrow> hd (rstrip s) = hd s"
proof -
  assume ne: "rstrip s \<noteq> []"
  obtain w where "s = rstrip s @ w" using rstrip_prefix by blast
  then have "hd s = hd (rstrip s @ w)" by simp
  with ne show ?thesis by simp
qed

lemma lstrip_id: "s = [] \<or> \<not> isspace (hd s) \<Longrightarrow> lstrip s = s"
  by (cases s) (auto simp: lstrip_def)

lemma rstrip_id: "s = [] \<or> \<not> isspace (last s) \<Longrightarrow> rstrip s = s"
proof (cases "s = []")
  case True
  then show ?thesis by (simp add: rstrip_def)
next
  case False
  assume "s = [] \<or> \<not> isspace (last s)"
  with False have "\<not> isspace (hd (rev s))" by (simp add: hd_rev)
  with False have "dropWhile isspace (rev s) = rev s" by (cases "rev s") auto
  then show ?thesis by (simp add: rstrip_def)
qed

lemma strip_ends:
  "strip s \<noteq> [] \<Longrightarrow> \<not> isspace (hd (strip s)) \<and> \<not> isspace (last (strip s))"
proof -
  assume ne: "strip s \<noteq> []"
  then have l: "lstrip s \<noteq> []" by (auto simp: strip_def rstrip_def)
  from ne have "hd (strip s) = hd (lstrip s)" unfolding strip_def by (rule hd_rstrip)
  with l ne show ?thesis using hd_lstrip [of s] last_rstrip [of "lstrip s"]
    by (simp add: strip_def)
qed

lemma strip_strip [simp]: "strip (strip s) = strip s"
proof (cases "strip s = []")
  case True
  have "strip [] = []" by (simp add: strip_def lstrip_def rstrip_def)
  with True show ?thesis by simp
next
  case False
  then have e: "\<not> isspace (hd (strip s))" "\<not> isspace (last (strip s))"
    using strip_ends by blast+
  then have "lstrip (strip s) = strip s" by (simp add: lstrip_id)
  with e show ?thesis by (simp add: strip_def [of "strip s"] rstrip_id)
qed

lemma number_lines_trimmed: "snd (number_lines text) i = Some t \<Longrightarrow> strip t = t"
  by (auto simp: number_lines_map split: if_splits)






lemma extract_evidence_filter:
  "extract_evidence_from_line_ids line_ids line_map label =
     map (\<lambda>i. \<lparr>quote = the (line_map i), location = ustr ''Line '' @ str_int i,
                 topic = label\<rparr>)
       (filter (\<lambda>i. case line_map i of None \<Rightarrow> False | Some t \<Rightarrow> t \<noteq> []) line_ids)"
  by (simp add: extract_evidence_from_line_ids_def extract_loop_filter)


section \<open>Termination of the decoder\<close>

text \<open>
  Every function of the decoder returns a rest that is shorter than its input; the
  recursion of \<open>parse_array\<close> and \<open>parse_object\<close> on the rest of a nested value
  terminates for that reason.
\<close>

lemma hex4_length: "hex4 s = Some (v, r) \<Longrightarrow> length s = length r + 4"
  by (induction s rule: hex4.induct) (auto split: option.splits)

termination scanstring
  by (relation "measure (\<lambda>(s, acc). length s)") (auto dest!: hex4_length)

lemma skip_ws_length: "length (skip_ws s) \<le> length s"
  by (simp add: skip_ws_def length_dropWhile_le)

lemma scanstring_length: "scanstring s acc = Inr (k, r) \<Longrightarrow> length r < length s"
proof (induction s acc arbitrary: k r rule: scanstring.induct)
  case (1 acc)
  then show ?case by simp
next
  case (2 c cs acc)
  show ?case
  proof (cases "c = 34")
    case True
    with "2.prems" show ?thesis by simp
  next
    case notq: False
    show ?thesis
    proof (cases "c = 92")
      case False
      with notq "2.prems" "2.IH"(5) show ?thesis
        by (auto split: if_splits)
    next
      case True
      with notq "2.prems" obtain e es where cs: "cs = e # es"
        by (cases cs) auto
      show ?thesis
      proof (cases "e = 117")
        case False
        with notq True cs "2.prems" obtain ch where ch: "escape_char e = Some ch"
          and "scanstring es (acc @ [ch]) = Inr (k, r)"
          by (auto split: option.splits)
        with "2.IH"(4) [OF notq True cs False ch] have "length r < length es" by auto
        with cs show ?thesis by simp
      next
        case u: True
        with notq True cs "2.prems" obtain uni r1 where h: "hex4 es = Some (uni, r1)"
          by (auto split: option.splits)
        then have l1: "length es = length r1 + 4" by (rule hex4_length)
        show ?thesis
        proof (cases "55296 \<le> uni \<and> uni \<le> 56319 \<and> startswith r1 [92, 117]")
          case False
          with notq True cs u h "2.prems" have "scanstring r1 (acc @ [uni]) = Inr (k, r)"
            by auto
          with "2.IH"(3) [OF notq True cs u h refl False]
          have "length r < length r1" by auto
          with l1 cs show ?thesis by simp
        next
          case sur: True
          with notq True cs u h "2.prems" obtain uni2 r2
            where h2: "hex4 (drop 2 r1) = Some (uni2, r2)"
            by (auto split: option.splits)
          then have l2: "length (drop 2 r1) = length r2 + 4" by (rule hex4_length)
          show ?thesis
          proof (cases "56320 \<le> uni2 \<and> uni2 \<le> 57343")
            case low: True
            with notq True cs u h sur h2 "2.prems"
            have "scanstring r2 (acc @ [65536 + ((uni - 55296) * 1024 + (uni2 - 56320))]) =
                  Inr (k, r)" by auto
            with "2.IH"(1) [OF notq True cs u h refl sur h2 refl low]
            have "length r < length r2" by auto
            with l1 l2 cs show ?thesis by simp
          next
            case nolow: False
            with notq True cs u h sur h2 "2.prems"
            have "scanstring r1 (acc @ [uni]) = Inr (k, r)" by auto
            with "2.IH"(2) [OF notq True cs u h refl sur h2 refl nolow]
            have "length r < length r1" by auto
            with l1 cs show ?thesis by simp
          qed
        qed
      qed
    qed
  qed
qed

lemma match_sign_length: "match_sign s = (sg, r) \<Longrightarrow> length r \<le> length s"
  by (auto simp: match_sign_def split: if_splits)

lemma match_int_length: "match_int s = Some (ip, r) \<Longrightarrow> length r < length s"
  using length_dropWhile_le [of is_digit "tl s"]
  by (auto simp: match_int_def split: list.splits if_splits)

lemma match_frac_length: "match_frac s = (f, r) \<Longrightarrow> length r \<le> length s"
proof (cases s)
  case Nil
  assume "match_frac s = (f, r)"
  with Nil show ?thesis by (simp add: match_frac_def)
next
  case (Cons p t)
  assume m: "match_frac s = (f, r)"
  show ?thesis
  proof (cases t)
    case Nil
    with Cons m show ?thesis by (simp add: match_frac_def)
  next
    case (Cons d u)
    have "length (dropWhile is_digit t) \<le> length t" by (rule length_dropWhile_le)
    with m \<open>s = p # t\<close> Cons show ?thesis
      by (auto simp: match_frac_def split: if_splits)
  qed
qed

lemma match_exp_length: "match_exp s = (e, r) \<Longrightarrow> length r \<le> length s"
proof (cases s)
  case Nil
  assume "match_exp s = (e, r)"
  with Nil show ?thesis by (simp add: match_exp_def)
next
  case (Cons c t)
  assume m: "match_exp s = (e, r)"
  have a: "length (dropWhile is_digit t) \<le> length t" by (rule length_dropWhile_le)
  have b: "length (dropWhile is_digit (tl t)) \<le> length (tl t)" by (rule length_dropWhile_le)
  show ?thesis
  proof (cases t)
    case Nil
    with Cons m show ?thesis by (auto simp: match_exp_def split: if_splits)
  next
    case (Cons g u)
    with m \<open>s = c # t\<close> a b show ?thesis
      by (auto simp: match_exp_def Let_def split: if_splits)
  qed
qed

lemma match_number_length: "match_number s = Some (v, r) \<Longrightarrow> length r < length s"
proof -
  assume m: "match_number s = Some (v, r)"
  obtain sg s1 where sg: "match_sign s = (sg, s1)" by (cases "match_sign s")
  with m obtain ip s2 where ip: "match_int s1 = Some (ip, s2)"
    by (auto simp: match_number_def split: option.splits)
  obtain f s3 where f: "match_frac s2 = (f, s3)" by (cases "match_frac s2")
  obtain e s4 where e: "match_exp s3 = (e, s4)" by (cases "match_exp s3")
  from m sg ip f e have "r = s4" by (auto simp: match_number_def split: if_splits)
  with match_sign_length [OF sg] match_int_length [OF ip] match_frac_length [OF f]
    match_exp_length [OF e]
  show ?thesis by simp
qed

lemma scan_scalar_length: "scan_scalar s = Inr (v, r) \<Longrightarrow> length r < length s"
  by (cases s)
    (auto simp: scan_scalar_def startswith_def ustr_def split: if_splits sum.splits option.splits
      dest: scanstring_length match_number_length)

lemma parse_dom_length:
  "parse_value_parse_array_parse_object_dom (Inl s) \<Longrightarrow>
     parse_value s = Inr (v, r) \<Longrightarrow> length r < length s"
  "parse_value_parse_array_parse_object_dom (Inr (Inl (items, s1))) \<Longrightarrow>
     parse_array items s1 = Inr (v1, r1) \<Longrightarrow> length r1 < length s1"
  "parse_value_parse_array_parse_object_dom (Inr (Inr (pairs, s2))) \<Longrightarrow>
     parse_object pairs s2 = Inr (v2, r2) \<Longrightarrow> length r2 < length s2"
proof (induction s and items s1 and pairs s2 arbitrary: v r and v1 r1 and v2 r2
    rule: parse_value_parse_array_parse_object.pinduct)
  case (1 s)
  note ps = parse_value.psimps [OF "1.hyps"]
  from "1.prems" ps obtain c cs where s: "s = c # cs"
    by (cases s) auto
  from ps s have eq: "parse_value s =
    (if c = 123 then
       (if startswith (skip_ws cs) [125] then Inr (JObject [], tl (skip_ws cs))
        else parse_object [] (skip_ws cs))
     else if c = 91 then
       (if startswith (skip_ws cs) [93] then Inr (JArray [], tl (skip_ws cs))
        else parse_array [] (skip_ws cs))
     else scan_scalar s)" by simp
  have sk: "length (skip_ws cs) \<le> length cs" by (rule skip_ws_length)
  then have tl: "length (tl (skip_ws cs)) < length s" using s by simp
  show ?case
  proof (cases "c = 123")
    case True
    show ?thesis
    proof (cases "startswith (skip_ws cs) [125]")
      case True
      with \<open>c = 123\<close> eq "1.prems" have "r = tl (skip_ws cs)" by simp
      with tl show ?thesis by simp
    next
      case False
      with \<open>c = 123\<close> eq "1.prems" have "parse_object [] (skip_ws cs) = Inr (v, r)"
        by simp
      with "1.IH"(1) [OF s \<open>c = 123\<close> False] have "length r < length (skip_ws cs)" .
      with sk s show ?thesis by simp
    qed
  next
    case no: False
    show ?thesis
    proof (cases "c = 91")
      case True
      show ?thesis
      proof (cases "startswith (skip_ws cs) [93]")
        case True
        with \<open>c = 91\<close> no eq "1.prems" have "r = tl (skip_ws cs)" by simp
        with tl show ?thesis by simp
      next
        case False
        with \<open>c = 91\<close> no eq "1.prems" have "parse_array [] (skip_ws cs) = Inr (v, r)"
          by simp
        with "1.IH"(2) [OF s no \<open>c = 91\<close> False] have "length r < length (skip_ws cs)" .
        with sk s show ?thesis by simp
      qed
    next
      case False
      with no eq "1.prems" have "scan_scalar s = Inr (v, r)" by simp
      then show ?thesis by (rule scan_scalar_length)
    qed
  qed
next
  case (2 items s)
  from "2.prems" obtain v' r' where pv: "parse_value s = Inr (v', r')"
    by (auto simp: parse_array.psimps [OF "2.hyps"] split: sum.splits)
  then have l: "length r' < length s" by (rule "2.IH"(1))
  from "2.prems" pv obtain c r'' where sk: "skip_ws r' = c # r''"
    by (cases "skip_ws r'") (auto simp: parse_array.psimps [OF "2.hyps"])
  have sl: "length (skip_ws r') \<le> length r'" by (rule skip_ws_length)
  show ?case
  proof (cases "c = 93")
    case True
    with "2.prems" pv sk have "r1 = r''"
      by (simp add: parse_array.psimps [OF "2.hyps"])
    with l sl sk show ?thesis by simp
  next
    case False
    with "2.prems" pv sk have c: "c = 44"
      and rec: "parse_array (items @ [v']) (skip_ws r'') = Inr (v1, r1)"
      by (auto simp: parse_array.psimps [OF "2.hyps"] split: if_splits)
    from "2.IH"(2) [OF pv refl sk False c rec]
    have "length r1 < length (skip_ws r'')" .
    with skip_ws_length [of r''] l sl sk show ?thesis by simp
  qed
next
  case (3 pairs s)
  note ps = parse_object.psimps [OF "3.hyps"]
  from "3.prems" ps obtain q cs where s: "s = q # cs" and q: "q = 34"
    by (cases s) (auto split: if_splits)
  from ps s q have eq: "parse_object pairs s =
    (case scanstring cs [] of
       Inl e \<Rightarrow> Inl e
     | Inr (key, r1) \<Rightarrow>
         (case skip_ws r1 of
            [] \<Rightarrow> Inl JSONDecodeError
          | d # r2 \<Rightarrow>
              if d = 58 then
                (case parse_value (skip_ws r2) of
                   Inl e \<Rightarrow> Inl e
                 | Inr (v, r3) \<Rightarrow>
                     (case skip_ws r3 of
                        [] \<Rightarrow> Inl JSONDecodeError
                      | c # r4 \<Rightarrow>
                          if c = 125 then Inr (JObject (dict_set pairs key v), r4)
                          else if c = 44
                            then parse_object (dict_set pairs key v) (skip_ws r4)
                          else Inl JSONDecodeError))
              else Inl JSONDecodeError))" by simp
  from "3.prems" eq obtain key r1 where ss: "scanstring cs [] = Inr (key, r1)"
    by (auto split: sum.splits)
  from "3.prems" eq ss obtain d r2' where sk1: "skip_ws r1 = d # r2'" and d: "d = 58"
    by (cases "skip_ws r1") (auto split: if_splits)
  from "3.prems" eq ss sk1 d obtain v' r3 where pv: "parse_value (skip_ws r2') = Inr (v', r3)"
    by (auto split: sum.splits)
  from "3.prems" eq ss sk1 d pv obtain c r4 where sk3: "skip_ws r3 = c # r4"
    by (cases "skip_ws r3") auto
  have l1: "length r1 < length cs" using ss by (rule scanstring_length)
  have l2: "length r2' < length r1"
    using skip_ws_length [of r1] sk1 by simp
  have l3: "length r3 < length (skip_ws r2')"
    using "3.IH"(1) [OF s q ss refl sk1 d pv] .
  have l4: "length r4 < length r3"
    using skip_ws_length [of r3] sk3 by simp
  from l1 l2 l3 l4 skip_ws_length [of r2'] s have l: "length r4 < length s" by simp
  show ?case
  proof (cases "c = 125")
    case True
    with "3.prems" eq ss sk1 d pv sk3 have "r2 = r4" by simp
    with l show ?thesis by simp
  next
    case False
    with "3.prems" eq ss sk1 d pv sk3 have c: "c = 44"
      and rec: "parse_object (dict_set pairs key v') (skip_ws r4) = Inr (v2, r2)"
      by (auto split: if_splits)
    from "3.IH"(2) [OF s q ss refl sk1 d pv refl sk3 False c rec]
    have "length r2 < length (skip_ws r4)" .
    with skip_ws_length [of r4] l show ?thesis by simp
  qed
qed

lemma parse_total: "All parse_value_parse_array_parse_object_dom"
proof (relation "measure (\<lambda>x. case x of
    Inl s \<Rightarrow> 2 * length s
  | Inr (Inl (items, s)) \<Rightarrow> 2 * length s + 1
  | Inr (Inr (pairs, s)) \<Rightarrow> 2 * length s + 1)", goal_cases)
  case 1
  show ?case by simp
next
  case (2 s c cs)
  with skip_ws_length [of cs] show ?case by simp
next
  case (3 s c cs)
  with skip_ws_length [of cs] show ?case by simp
next
  case (4 items s)
  show ?case by simp
next
  case (5 items s b v r c r')
  from 5 have "parse_value s = Inr (v, r)" by simp
  with 5 have "length r < length s" by (auto dest: parse_dom_length(1))
  moreover have "length r' < length r"
    using skip_ws_length [of r] 5 by simp
  ultimately show ?case using skip_ws_length [of r'] by simp
next
  case (6 pairs s q cs b key r1 d r2)
  from 6 have "scanstring cs [] = Inr (key, r1)" by simp
  then have "length r1 < length cs" by (rule scanstring_length)
  moreover have "length r2 < length r1" using skip_ws_length [of r1] 6 by simp
  ultimately show ?case using skip_ws_length [of r2] 6 by simp
next
  case (7 pairs s q cs b key r1 d r2 ba v r3 c r4)
  from 7 have "scanstring cs [] = Inr (key, r1)" by simp
  then have "length r1 < length cs" by (rule scanstring_length)
  moreover have "length r2 < length r1" using skip_ws_length [of r1] 7 by simp
  moreover from 7 have "parse_value (skip_ws r2) = Inr (v, r3)" by simp
  with 7 have "length r3 < length (skip_ws r2)" by (auto dest: parse_dom_length(1))
  moreover have "length r4 < length r3" using skip_ws_length [of r3] 7 by simp
  ultimately show ?case using skip_ws_length [of r2] skip_ws_length [of r4] 7 by simp
qed

termination parse_value
  by (rule parse_total)

lemma parse_value_length: "parse_value s = Inr (v, r) \<Longrightarrow> length r < length s"
proof -
  assume p: "parse_value s = Inr (v, r)"
  have "parse_value_parse_array_parse_object_dom (Inl s)"
    using parse_total by (rule spec)
  then show ?thesis using p by (rule parse_dom_length(1))
qed

declare parse_value.simps [simp del] parse_array.simps [simp del] parse_object.simps [simp del]
  scanstring.simps [simp del]

section \<open>Facts about the extractor\<close>

lemma set_strip: "set (strip s) \<subseteq> set s"
proof -
  have "set (rstrip t) \<subseteq> set t" for t
    using set_dropWhileD [of _ isspace "rev t"] by (auto simp: rstrip_def)
  moreover have "set (lstrip s) \<subseteq> set s"
    using set_dropWhileD [of _ isspace s] by (auto simp: lstrip_def)
  ultimately show ?thesis unfolding strip_def by blast
qed

lemma set_split_lines: "l \<in> set (split_lines s) \<Longrightarrow> set l \<subseteq> set s"
proof (induction s arbitrary: l)
  case Nil
  then show ?case by simp
next
  case (Cons a s)
  obtain x xs where sp: "split_lines s = x # xs" by (cases "split_lines s") simp_all
  from Cons.IH sp have x: "set x \<subseteq> set s" and xs: "\<forall>y \<in> set xs. set y \<subseteq> set s"
    by auto
  from Cons.prems sp have "l = [] \<or> l = x \<or> l \<in> set xs \<or> l = a # x"
    by (auto split: if_splits)
  with x xs show ?case by auto
qed

lemma set_join_lines: "c \<in> set (join_lines xs) \<Longrightarrow> c = 10 \<or> (\<exists>x \<in> set xs. c \<in> set x)"
  by (induction xs rule: join_lines.induct) auto

lemma strip_code_fence_chars:
  assumes "c \<in> set (strip_code_fence s)"
  shows "c \<in> set s \<or> c = 10"
proof (cases "startswith s [96, 96, 96]")
  case False
  with assms show ?thesis by (simp add: strip_code_fence_def)
next
  case True
  let ?ls = "split_lines s"
  let ?sel = "if strip (last ?ls) = [96, 96, 96] then butlast (drop 1 ?ls) else drop 1 ?ls"
  let ?t1 = "strip (join_lines ?sel)"
  have sel: "set ?sel \<subseteq> set ?ls"
    using in_set_butlastD [of _ "drop 1 ?ls"] in_set_dropD [of _ 1 ?ls] by auto
  from assms True have "c \<in> set ?t1 \<or> c \<in> set (strip (drop 4 ?t1))"
    by (auto simp: strip_code_fence_def Let_def split: if_splits)
  with set_strip [of "drop 4 ?t1"] in_set_dropD [of c 4 ?t1] have "c \<in> set ?t1" by blast
  with set_strip [of "join_lines ?sel"] have "c \<in> set (join_lines ?sel)" by blast
  then have "c = 10 \<or> (\<exists>x \<in> set ?sel. c \<in> set x)" by (rule set_join_lines)
  with sel set_split_lines [of _ s] show ?thesis by blast
qed

lemma strip_code_fence_no_brace:
  "123 \<notin> set s \<Longrightarrow> 123 \<notin> set (strip_code_fence (strip s))"
  using strip_code_fence_chars [of 123 "strip s"] set_strip [of s] by auto

lemma select_object_span_no_brace: "123 \<notin> set s \<Longrightarrow> select_object_span s = s"
  by (simp add: select_object_span_def)

lemma match_number_kind: "match_number s = Some (v, r) \<Longrightarrow> (\<exists>n. v = JInt n) \<or> (\<exists>l. v = JFloat l)"
proof -
  assume m: "match_number s = Some (v, r)"
  obtain sg s1 where sg: "match_sign s = (sg, s1)" by (cases "match_sign s")
  with m obtain ip s2 where ip: "match_int s1 = Some (ip, s2)"
    by (auto simp: match_number_def split: option.splits)
  obtain f s3 where f: "match_frac s2 = (f, s3)" by (cases "match_frac s2")
  obtain e s4 where e: "match_exp s3 = (e, s4)" by (cases "match_exp s3")
  from m sg ip f e show ?thesis by (auto simp: match_number_def split: if_splits)
qed

lemma scan_scalar_kind: "scan_scalar s = Inr (v, r) \<Longrightarrow> v \<noteq> JObject kvs \<and> v \<noteq> JArray xs"
proof -
  assume sc: "scan_scalar s = Inr (v, r)"
  show ?thesis
  proof (cases "match_number s")
    case None
    with sc show ?thesis
      by (auto simp: scan_scalar_def split: if_splits sum.splits)
  next
    case (Some p)
    then obtain w t where "match_number s = Some (w, t)" by (cases p) simp
    with sc match_number_kind [OF this] show ?thesis
      by (auto simp: scan_scalar_def split: if_splits sum.splits)
  qed
qed

lemma parse_array_kind: "parse_array items s = Inr (v, r) \<Longrightarrow> \<exists>xs. v = JArray xs"
proof (induction "length s" arbitrary: items s v r rule: less_induct)
  case less
  from less.prems obtain v' r' where pv: "parse_value s = Inr (v', r')"
    by (auto simp: parse_array.simps [of items s] split: sum.splits)
  then have l: "length r' < length s" by (rule parse_value_length)
  from less.prems pv obtain c r'' where sk: "skip_ws r' = c # r''"
    by (cases "skip_ws r'") (auto simp: parse_array.simps [of items s])
  show ?case
  proof (cases "c = 93")
    case True
    with less.prems pv sk show ?thesis by (auto simp: parse_array.simps [of items s])
  next
    case False
    with less.prems pv sk have rec: "parse_array (items @ [v']) (skip_ws r'') = Inr (v, r)"
      by (auto simp: parse_array.simps [of items s] split: if_splits)
    have "length (skip_ws r'') < length s"
      using skip_ws_length [of r''] skip_ws_length [of r'] sk l by simp
    from less.hyps [OF this rec] show ?thesis .
  qed
qed

lemma parse_value_object:
  assumes "parse_value s = Inr (JObject kvs, r)"
  shows "\<exists>cs. s = 123 # cs"
proof (cases s)
  case Nil
  with assms show ?thesis by (simp add: parse_value.simps)
next
  case (Cons c cs)
  from parse_value.simps [of s] Cons have eq: "parse_value s =
    (if c = 123 then
       (if startswith (skip_ws cs) [125] then Inr (JObject [], tl (skip_ws cs))
        else parse_object [] (skip_ws cs))
     else if c = 91 then
       (if startswith (skip_ws cs) [93] then Inr (JArray [], tl (skip_ws cs))
        else parse_array [] (skip_ws cs))
     else scan_scalar s)" by simp
  show ?thesis
  proof (cases "c = 123")
    case True
    with Cons show ?thesis by simp
  next
    case False
    show ?thesis
    proof (cases "c = 91")
      case True
      with assms eq False have
        "parse_array [] (skip_ws cs) = Inr (JObject kvs, r)"
        by (auto split: if_splits)
      with parse_array_kind show ?thesis by fastforce
    next
      case no: False
      with assms eq False have "scan_scalar s = Inr (JObject kvs, r)" by simp
      with scan_scalar_kind show ?thesis by blast
    qed
  qed
qed

lemma json_loads_object: "json_loads s = Inr (JObject kvs) \<Longrightarrow> 123 \<in> set s"
proof -
  assume "json_loads s = Inr (JObject kvs)"
  then obtain r where "parse_value (skip_ws s) = Inr (JObject kvs, r)"
    by (auto simp: json_loads_def split: sum.splits if_splits)
  then obtain cs where "skip_ws s = 123 # cs" using parse_value_object by blast
  then have "123 \<in> set (skip_ws s)" by simp
  then show ?thesis using set_dropWhileD [of 123 json_ws s] by (simp add: skip_ws_def)
qed













lemma must_json_no_brace:
  assumes "123 \<notin> set raw"
  shows "snd (must_json raw) = json_loads (strip_code_fence (strip raw)) \<and>
         (\<forall>kvs. snd (must_json raw) \<noteq> Inr (JObject kvs))"
proof (intro conjI allI)
  from assms have nb: "123 \<notin> set (strip_code_fence (strip raw))"
    by (rule strip_code_fence_no_brace)
  then have sp: "select_object_span (strip_code_fence (strip raw)) = strip_code_fence (strip raw)"
    by (rule select_object_span_no_brace)
  then show eq: "snd (must_json raw) = json_loads (strip_code_fence (strip raw))"
    by (simp add: must_json_def Let_def split: sum.splits)
  fix kvs
  show "snd (must_json raw) \<noteq> Inr (JObject kvs)"
  proof
    assume "snd (must_json raw) = Inr (JObject kvs)"
    with eq have "json_loads (strip_code_fence (strip raw)) = Inr (JObject kvs)" by simp
    then have "123 \<in> set (strip_code_fence (strip raw))" by (rule json_loads_object)
    with nb show False by contradiction
  qed
qed

section \<open>The claims\<close>

lemmas eval_simps = ustr_def strip_def lstrip_def rstrip_def isspace_def str_int_def
  str_nat.simps numbered_line_def number_lines_def extract_evidence_from_line_ids_def Let_def

lemmas json_eval = eval_simps startswith_def json_ws_def skip_ws_def is_digit_def
  hex_value_def escape_char_def match_sign_def match_int_def match_frac_def match_exp_def
  match_number_def scan_scalar_def digits_value_def json_loads_def strip_code_fence_def
  find_brace_def select_object_span_def failure_report_def must_json_def
  parse_value.simps parse_array.simps parse_object.simps scanstring.simps
  dict_get_def verified_evidence_def main_evidence_def STUDY_ID_def

text \<open>
  C1 (grounding invariant). Whatever the document and whatever identifiers the model
  proposes, every evidence record that \<open>extract_evidence_from_line_ids\<close> builds from the
  line map of \<open>number_lines\<close> has a non-empty quote, and that quote is the trimmed text of
  one of the lines of the document.
\<close>

theorem grounding_invariant:
  assumes "r \<in> set (extract_evidence_from_line_ids line_ids (snd (number_lines text)) label)"
  shows "quote r \<noteq> [] \<and> (\<exists>line \<in> set (split_lines text). quote r = strip line)"
proof -
  let ?lm = "snd (number_lines text)"
  from assms obtain i t where i: "?lm i = Some t" "t \<noteq> []" and r: "quote r = t"
    by (auto simp: extract_evidence_filter split: option.splits)
  from i(1) have rng: "1 \<le> i" "i \<le> int (length (split_lines text))"
    and t: "t = strip (split_lines text ! nat (i - 1))"
    by (auto simp: number_lines_map split: if_splits)
  from rng have "nat (i - 1) < length (split_lines text)" by arith
  then have "split_lines text ! nat (i - 1) \<in> set (split_lines text)" by (rule nth_mem)
  with i(2) r t show ?thesis by blast
qed

theorem grounding_invariant_witness:
  "\<lparr>quote = ustr ''Threshold was 5mg.'', location = ustr ''Line 2'', topic = ustr ''threshold''\<rparr>
     \<in> set (extract_evidence_from_line_ids [7, 2]
              (snd (number_lines (ustr ''Blinded assessors.'' @ [10] @ ustr ''  Threshold was 5mg. '')))
              (ustr ''threshold'')) \<and>
   (\<exists>line \<in> set (split_lines (ustr ''Blinded assessors.'' @ [10] @ ustr ''  Threshold was 5mg. '')).
      ustr ''Threshold was 5mg.'' = strip line)"
proof -
  let ?text = "ustr ''Blinded assessors.'' @ [10] @ ustr ''  Threshold was 5mg. ''"
  let ?r = "\<lparr>quote = ustr ''Threshold was 5mg.'', location = ustr ''Line 2'',
             topic = ustr ''threshold''\<rparr>"
  have mem: "?r \<in> set (extract_evidence_from_line_ids [7, 2] (snd (number_lines ?text))
                      (ustr ''threshold''))"
    by (simp add: eval_simps)
  from grounding_invariant [OF mem] mem show ?thesis by simp
qed

text \<open>
  C2 (EvidenceResolver filtering). The resolver tests the mapped text as it is stored and
  does not trim it. For a map that holds an untrimmed text the claim fails: the key 1 of
  \<^verbatim>\<open>{1: " "}\<close> maps to a text that is empty after trimming, and a record is returned
  for it.
\<close>

theorem evidence_resolver_untrimmed_counterexample:
  "extract_evidence_from_line_ids [1] [1 \<mapsto> ustr '' ''] (ustr ''threshold'') =
     [\<lparr>quote = ustr '' '', location = ustr ''Line 1'', topic = ustr ''threshold''\<rparr>] \<and>
   strip (ustr '' '') = []"
  by (simp add: eval_simps)

text \<open>
  C2 as amended. For every line map the result is the list of the candidate identifiers
  that are keys with a non-empty stored text, in their input order and with their
  repetitions, each turned into one record; the function has no error branch, the lookup
  being guarded by the key test. On a map whose texts are trimmed, as \<open>number_lines\<close>
  builds it (\<open>number_lines_trimmed\<close>), these are the keys whose text is non-empty after
  trimming. On the map \<^verbatim>\<open>{1:"alpha", 2:"", 3:"gamma"}\<close> and the identifiers
  \<^verbatim>\<open>[1, 2, 3, 4, 99]\<close> the records are those of 1 and 3.
\<close>

theorem evidence_resolver_filtering:
  "extract_evidence_from_line_ids line_ids line_map label =
     map (\<lambda>i. \<lparr>quote = the (line_map i), location = ustr ''Line '' @ str_int i,
                 topic = label\<rparr>)
       (filter (\<lambda>i. case line_map i of None \<Rightarrow> False | Some t \<Rightarrow> t \<noteq> []) line_ids) \<and>
   ((\<forall>i t. line_map i = Some t \<longrightarrow> strip t = t) \<longrightarrow>
      extract_evidence_from_line_ids line_ids line_map label =
        map (\<lambda>i. \<lparr>quote = the (line_map i), location = ustr ''Line '' @ str_int i,
                    topic = label\<rparr>)
          (filter (\<lambda>i. i \<in> dom line_map \<and> strip (the (line_map i)) \<noteq> []) line_ids)) \<and>
   extract_evidence_from_line_ids [1, 2, 3, 4, 99]
     [1 \<mapsto> ustr ''alpha'', 2 \<mapsto> [], 3 \<mapsto> ustr ''gamma''] label =
     [\<lparr>quote = ustr ''alpha'', location = ustr ''Line 1'', topic = label\<rparr>,
      \<lparr>quote = ustr ''gamma'', location = ustr ''Line 3'', topic = label\<rparr>]"
proof (intro conjI impI)
  show "extract_evidence_from_line_ids line_ids line_map label =
     map (\<lambda>i. \<lparr>quote = the (line_map i), location = ustr ''Line '' @ str_int i,
                 topic = label\<rparr>)
       (filter (\<lambda>i. case line_map i of None \<Rightarrow> False | Some t \<Rightarrow> t \<noteq> []) line_ids)"
    by (rule extract_evidence_filter)
next
  assume trimmed: "\<forall>i t. line_map i = Some t \<longrightarrow> strip t = t"
  have "(case line_map i of None \<Rightarrow> False | Some t \<Rightarrow> t \<noteq> []) \<longleftrightarrow>
        (i \<in> dom line_map \<and> strip (the (line_map i)) \<noteq> [])" for i
    using trimmed by (auto split: option.splits)
  then show "extract_evidence_from_line_ids line_ids line_map label =
        map (\<lambda>i. \<lparr>quote = the (line_map i), location = ustr ''Line '' @ str_int i,
                    topic = label\<rparr>)
          (filter (\<lambda>i. i \<in> dom line_map \<and> strip (the (line_map i)) \<noteq> []) line_ids)"
    by (simp add: extract_evidence_filter)
next
  show "extract_evidence_from_line_ids [1, 2, 3, 4, 99]
     [1 \<mapsto> ustr ''alpha'', 2 \<mapsto> [], 3 \<mapsto> ustr ''gamma''] label =
     [\<lparr>quote = ustr ''alpha'', location = ustr ''Line 1'', topic = label\<rparr>,
      \<lparr>quote = ustr ''gamma'', location = ustr ''Line 3'', topic = label\<rparr>]"
    by (simp add: eval_simps)
qed

theorem evidence_resolver_filtering_witness:
  "extract_evidence_from_line_ids [3, 1, 5, 3, 2]
     [1 \<mapsto> ustr ''alpha'', 2 \<mapsto> [], 3 \<mapsto> ustr ''gamma''] (ustr ''threshold'') =
     map (\<lambda>i. \<lparr>quote = the ([1 \<mapsto> ustr ''alpha'', 2 \<mapsto> [], 3 \<mapsto> ustr ''gamma''] i),
                 location = ustr ''Line '' @ str_int i, topic = ustr ''threshold''\<rparr>)
       (filter (\<lambda>i. i \<in> dom [1 \<mapsto> ustr ''alpha'', 2 \<mapsto> [], 3 \<mapsto> ustr ''gamma''] \<and>
                     strip (the ([1 \<mapsto> ustr ''alpha'', 2 \<mapsto> [], 3 \<mapsto> ustr ''gamma''] i)) \<noteq> [])
               [3, 1, 5, 3, 2]) \<and>
   extract_evidence_from_line_ids [3, 1, 5, 3, 2]
     [1 \<mapsto> ustr ''alpha'', 2 \<mapsto> [], 3 \<mapsto> ustr ''gamma''] (ustr ''threshold'') =
     [\<lparr>quote = ustr ''gamma'', location = ustr ''Line 3'', topic = ustr ''threshold''\<rparr>,
      \<lparr>quote = ustr ''alpha'', location = ustr ''Line 1'', topic = ustr ''threshold''\<rparr>,
      \<lparr>quote = ustr ''gamma'', location = ustr ''Line 3'', topic = ustr ''threshold''\<rparr>]"
proof -
  let ?m = "[1 \<mapsto> ustr ''alpha'', 2 \<mapsto> [], 3 \<mapsto> ustr ''gamma''] :: line_map"
  have h: "\<forall>i t. ?m i = Some t \<longrightarrow> strip t = t"
    by (auto simp: eval_simps split: if_splits)
  from evidence_resolver_filtering [of "[3, 1, 5, 3, 2]" ?m "ustr ''threshold''"] h
  have "extract_evidence_from_line_ids [3, 1, 5, 3, 2] ?m (ustr ''threshold'') =
     map (\<lambda>i. \<lparr>quote = the (?m i), location = ustr ''Line '' @ str_int i,
                 topic = ustr ''threshold''\<rparr>)
       (filter (\<lambda>i. i \<in> dom ?m \<and> strip (the (?m i)) \<noteq> []) [3, 1, 5, 3, 2])"
    by blast
  moreover have "extract_evidence_from_line_ids [3, 1, 5, 3, 2] ?m (ustr ''threshold'') =
     [\<lparr>quote = ustr ''gamma'', location = ustr ''Line 3'', topic = ustr ''threshold''\<rparr>,
      \<lparr>quote = ustr ''alpha'', location = ustr ''Line 1'', topic = ustr ''threshold''\<rparr>,
      \<lparr>quote = ustr ''gamma'', location = ustr ''Line 3'', topic = ustr ''threshold''\<rparr>]"
    by (simp add: eval_simps)
  ultimately show ?thesis by (rule conjI)
qed



text \<open>
  C4 (extraction failure). The claim asks for a failure on every input without an opening
  brace. The text \<^verbatim>\<open>[]\<close> has none, and \<open>must_json\<close> neither fails nor prints: it returns
  the empty list. That value is not the \<^verbatim>\<open>dict\<close> the signature of \<^verbatim>\<open>must_json\<close>
  declares, and it is the value on which \<^verbatim>\<open>main\<close> goes on to call \<^verbatim>\<open>.get\<close>.
\<close>

theorem must_json_no_brace_returns_list:
  "123 \<notin> set (ustr ''[]'') \<and> must_json (ustr ''[]'') = ([], Inr (JArray []))"
  by (simp add: json_eval)

text \<open>
  C5 (line-count invariant). With \<open>N\<close> the number of lines of the document, the keys of
  the line map are exactly \<open>1, \<dots>, N\<close>, and the numbered text splits into exactly
  \<open>N\<close> lines, the \<open>k\<close>-th being the marker \<^verbatim>\<open>[LINE_k] \<close> followed by the
  untrimmed \<open>k\<close>-th line.
\<close>

theorem line_count_invariant:
  "dom (snd (number_lines text)) = {1 .. int (length (split_lines text))} \<and>
   split_lines (fst (number_lines text)) =
     map (\<lambda>k. ustr ''[LINE_'' @ str_int (int k + 1) @ ustr ''] '' @ split_lines text ! k)
       [0 ..< length (split_lines text)]"
proof
  show "dom (snd (number_lines text)) = {1 .. int (length (split_lines text))}"
    by (auto simp: dom_def number_lines_map)
next
  let ?ls = "split_lines text"
  let ?nl = "map (\<lambda>k. numbered_line (int k + 1) (?ls ! k)) [0 ..< length ?ls]"
  have "length ?ls \<noteq> 0" by simp
  then have ne: "?nl \<noteq> []" by simp
  have "\<forall>x \<in> set ?nl. 10 \<notin> set x"
    using split_lines_no_nl [of _ "text"] by (auto intro!: numbered_line_no_nl)
  with ne have "split_lines (join_lines ?nl) = ?nl" by (rule split_join_lines)
  then show "split_lines (fst (number_lines text)) =
     map (\<lambda>k. ustr ''[LINE_'' @ str_int (int k + 1) @ ustr ''] '' @ split_lines text ! k)
       [0 ..< length (split_lines text)]"
    by (simp add: number_lines_text numbered_line_def)
qed

theorem line_count_invariant_witness:
  "dom (snd (number_lines (ustr ''ab'' @ [10] @ ustr '' cd''))) = {1 .. 2} \<and>
   split_lines (fst (number_lines (ustr ''ab'' @ [10] @ ustr '' cd''))) =
     [ustr ''[LINE_1] ab'', ustr ''[LINE_2]  cd'']"
  using line_count_invariant [of "ustr ''ab'' @ [10] @ ustr '' cd''"]
  by (simp add: eval_simps upt_conv_Cons)

text \<open>
  C6 (empty input). \<open>number_lines\<close> is a total function with no error branch: splitting,
  trimming, joining, the f-string and the dictionary store cannot raise on a string. On
  the empty string the line map is not empty: it has the one key 1, mapped to the empty
  text.
\<close>

theorem number_lines_empty_counterexample:
  "snd (number_lines []) 1 = Some [] \<and> snd (number_lines []) \<noteq> Map.empty"
proof -
  have "snd (number_lines []) 1 = Some []" by (simp add: eval_simps)
  then show ?thesis by auto
qed

text \<open>
  C6 as amended. On the empty string \<open>number_lines\<close> returns the numbered text
  \<^verbatim>\<open>[LINE_1] \<close> (one marked line with empty text) and the one-entry map
  \<^verbatim>\<open>{1: ""}\<close>; on every string the map has the key 1, so it is never empty.
\<close>

theorem number_lines_empty:
  "number_lines [] = (ustr ''[LINE_1] '', [1 \<mapsto> []]) \<and>
   snd (number_lines text) 1 = Some (strip (hd (split_lines text)))"
proof
  show "number_lines [] = (ustr ''[LINE_1] '', [1 \<mapsto> []])"
    by (simp add: eval_simps)
next
  have "split_lines text \<noteq> []" by simp
  then show "snd (number_lines text) 1 = Some (strip (hd (split_lines text)))"
    by (cases "split_lines text") (simp_all add: number_lines_map)
qed

theorem number_lines_empty_witness:
  "snd (number_lines (ustr '' a '' @ [10])) 1 = Some (ustr ''a'')"
  using number_lines_empty [of "ustr '' a '' @ [10]"] by (simp add: eval_simps)

text \<open>
  C7 (evidence assembly). For a reply whose two groups are lists of identifiers the
  evidence is the records of the group \<^verbatim>\<open>index_test_blinding\<close> followed by the records of
  the group \<^verbatim>\<open>threshold\<close>, whatever the order of the keys in the reply, and
  \<^verbatim>\<open>not_found\<close> is the value of the reply. On the document and the reply of the
  end-to-end scenario the evidence is the two records of lines 1 and 2.
\<close>

theorem pipeline_evidence_assembly:
  "(as_line_ids (dict_get d (ustr ''index_test_blinding_line_ids'') (JArray [])) = Some ids1 \<and>
    as_line_ids (dict_get d (ustr ''threshold_line_ids'') (JArray [])) = Some ids2 \<longrightarrow>
      verified_evidence (JObject d) line_map =
        Some \<lparr>study_id = STUDY_ID,
              evidence_quotes =
                extract_evidence_from_line_ids ids1 line_map (ustr ''index_test_blinding'') @
                extract_evidence_from_line_ids ids2 line_map (ustr ''threshold''),
              not_found = dict_get d (ustr ''not_found'') (JArray [])\<rparr>) \<and>
   main_evidence (ustr ''Blinded assessors.'' @ [10] @ ustr ''Threshold was 5mg.'' @ [10])
     (ustr ''{\"index_test_blinding_line_ids\":[1],\"threshold_line_ids\":[2],\"not_found\":[]}'') =
     Inr (Some \<lparr>study_id = STUDY_ID,
                evidence_quotes =
                  [\<lparr>quote = ustr ''Blinded assessors.'', location = ustr ''Line 1'',
                    topic = ustr ''index_test_blinding''\<rparr>,
                   \<lparr>quote = ustr ''Threshold was 5mg.'', location = ustr ''Line 2'',
                    topic = ustr ''threshold''\<rparr>],
                not_found = JArray []\<rparr>)"
proof (intro conjI impI)
  assume "as_line_ids (dict_get d (ustr ''index_test_blinding_line_ids'') (JArray [])) = Some ids1 \<and>
    as_line_ids (dict_get d (ustr ''threshold_line_ids'') (JArray [])) = Some ids2"
  then show "verified_evidence (JObject d) line_map =
        Some \<lparr>study_id = STUDY_ID,
              evidence_quotes =
                extract_evidence_from_line_ids ids1 line_map (ustr ''index_test_blinding'') @
                extract_evidence_from_line_ids ids2 line_map (ustr ''threshold''),
              not_found = dict_get d (ustr ''not_found'') (JArray [])\<rparr>"
    by (simp add: verified_evidence_def)
next
  show "main_evidence (ustr ''Blinded assessors.'' @ [10] @ ustr ''Threshold was 5mg.'' @ [10])
     (ustr ''{\"index_test_blinding_line_ids\":[1],\"threshold_line_ids\":[2],\"not_found\":[]}'') =
     Inr (Some \<lparr>study_id = STUDY_ID,
                evidence_quotes =
                  [\<lparr>quote = ustr ''Blinded assessors.'', location = ustr ''Line 1'',
                    topic = ustr ''index_test_blinding''\<rparr>,
                   \<lparr>quote = ustr ''Threshold was 5mg.'', location = ustr ''Line 2'',
                    topic = ustr ''threshold''\<rparr>],
                not_found = JArray []\<rparr>)"
    by (simp add: json_eval)
qed

theorem pipeline_evidence_assembly_witness:
  "verified_evidence
     (JObject [(ustr ''not_found'', JArray [JString (ustr ''threshold'')]),
               (ustr ''threshold_line_ids'', JArray [JInt 2, JInt 9]),
               (ustr ''index_test_blinding_line_ids'', JArray [JInt 1])])
     [1 \<mapsto> ustr ''alpha'', 2 \<mapsto> ustr ''beta''] =
   Some \<lparr>study_id = ustr ''smith_2022'',
         evidence_quotes =
           [\<lparr>quote = ustr ''alpha'', location = ustr ''Line 1'',
             topic = ustr ''index_test_blinding''\<rparr>,
            \<lparr>quote = ustr ''beta'', location = ustr ''Line 2'', topic = ustr ''threshold''\<rparr>],
         not_found = JArray [JString (ustr ''threshold'')]\<rparr>"
  using pipeline_evidence_assembly
    [of "[(ustr ''not_found'', JArray [JString (ustr ''threshold'')]),
          (ustr ''threshold_line_ids'', JArray [JInt 2, JInt 9]),
          (ustr ''index_test_blinding_line_ids'', JArray [JInt 1])]"
        "[1]" "[2, 9]" "[1 \<mapsto> ustr ''alpha'', 2 \<mapsto> ustr ''beta'']"]
  by (simp add: json_eval)

text \<open>
  C8 (surfacing of malformed output). The parse failure itself propagates: the outcome is
  the decode error, after one parse, with no value in its place. But the report does not
  carry the raw reply: \<^verbatim>\<open>text\<close> has been overwritten by the selected span before the
  \<^verbatim>\<open>print\<close>, so for the reply \<^verbatim>\<open>Sure! {"a": } bye\<close> the line headed
  \<^verbatim>\<open>Raw response:\<close> shows \<^verbatim>\<open>{"a": }\<close> only.
\<close>

theorem failure_report_shows_span:
  "must_json (ustr ''Sure! {\"a\": } bye'') =
     ([[10, 10060, 32] @ ustr ''Failed to parse JSON. Raw response:'' @ [10] @
         ustr ''{\"a\": }'' @ [10]], Inl JSONDecodeError) \<and>
   fst (must_json (ustr ''Sure! {\"a\": } bye'')) \<noteq>
     [[10, 10060, 32] @ ustr ''Failed to parse JSON. Raw response:'' @ [10] @
         ustr ''Sure! {\"a\": } bye'' @ [10]]"
  by (simp add: json_eval)

text \<open>
  C9 (braces inside string literals). The text \<^verbatim>\<open>{"a": "}"}\<close> is a valid JSON object,
  but the scanner counts the closing brace inside its string: the span ends there, the
  parse of \<^verbatim>\<open>{"a": "}\<close> fails and \<open>must_json\<close> raises.
\<close>

theorem brace_in_string_literal:
  "json_loads (ustr ''{\"a\": \"}\"}'') = Inr (JObject [(ustr ''a'', JString (ustr ''}''))]) \<and>
   select_object_span (ustr ''{\"a\": \"}\"}'') = ustr ''{\"a\": \"}'' \<and>
   must_json (ustr ''{\"a\": \"}\"}'') =
     ([failure_report (ustr ''{\"a\": \"}'')], Inl JSONDecodeError)"
  by (simp add: json_eval)



end
